theory Spec2Isabelle
  imports Complex_Main "HOL-Library.Log_Nat"
begin

section \<open>JavaScript numbers\<close>

text \<open>
  Every \<^verbatim>\<open>number\<close> of \<^verbatim>\<open>Cart.tsx\<close> is an IEEE-754 binary64 value. A finite
  one is carried by the rational it denotes; the two zeros are identified, since
  the file never divides and never inspects the sign of a zero. Each arithmetic
  operation computes the exact rational result and rounds it to the nearest
  binary64 value, ties to the even significand, as the language standard
  prescribes.
\<close>

datatype number = Finite rat | PosInf | NegInf | NaN

text \<open>\<open>ilog2 x\<close> is the binary exponent of a positive rational: \<open>2 powi e \<le> x < 2 powi (e + 1)\<close>.\<close>

definition ilog2 :: "rat \<Rightarrow> int" where
  "ilog2 x =
     (let (p, q) = quotient_of x;
          e = bitlen p - bitlen q
      in if 2 powi e \<le> x then e else e - 1)"

text \<open>Exponent of the unit in the last place: 53 significant bits, subnormals below \<open>2 powi (-1022)\<close>.\<close>

definition ulp_exp :: "rat \<Rightarrow> int" where
  "ulp_exp x = max (ilog2 \<bar>x\<bar>) (- 1022) - 52"

text \<open>Rounding a rational to the nearest integer, ties to even.\<close>

definition rne :: "rat \<Rightarrow> int" where
  "rne m =
     (let f = \<lfloor>m\<rfloor>; d = m - of_int f
      in if d < 1 / 2 then f
         else if 1 / 2 < d then f + 1
         else if even f then f else f + 1)"

text \<open>Rounding to the binary64 grid, before the overflow check.\<close>

definition fl :: "rat \<Rightarrow> rat" where
  "fl x = (if x = 0 then 0 else of_int (rne (x / 2 powi ulp_exp x)) * 2 powi ulp_exp x)"

text \<open>
  A rounded magnitude of \<open>2 powi 1024\<close> or more has left the binary64 range and
  becomes an infinity. The test reads the binary exponent (\<open>ilog2 0 = - 2\<close>).
\<close>

definition js_round :: "rat \<Rightarrow> number" where
  "js_round x =
     (let v = fl x
      in if ilog2 \<bar>v\<bar> < 1024 then Finite v
         else if 0 < v then PosInf else NegInf)"

text \<open>A value the model reads as a JavaScript number: a finite one lies on the grid and in range.\<close>

fun is_number :: "number \<Rightarrow> bool" where
  "is_number (Finite x) = (fl x = x \<and> ilog2 \<bar>x\<bar> < 1024)"
| "is_number _ = True"

text \<open>\<^verbatim>\<open>a + b\<close>\<close>

fun js_add :: "number \<Rightarrow> number \<Rightarrow> number" where
  "js_add NaN _ = NaN"
| "js_add _ NaN = NaN"
| "js_add PosInf NegInf = NaN"
| "js_add NegInf PosInf = NaN"
| "js_add PosInf _ = PosInf"
| "js_add _ PosInf = PosInf"
| "js_add NegInf _ = NegInf"
| "js_add _ NegInf = NegInf"
| "js_add (Finite a) (Finite b) = js_round (a + b)"

text \<open>\<^verbatim>\<open>- a\<close>\<close>

fun js_neg :: "number \<Rightarrow> number" where
  "js_neg (Finite a) = Finite (- a)"
| "js_neg PosInf = NegInf"
| "js_neg NegInf = PosInf"
| "js_neg NaN = NaN"

text \<open>\<^verbatim>\<open>a - b\<close>\<close>

definition js_sub :: "number \<Rightarrow> number \<Rightarrow> number" where
  "js_sub a b = js_add a (js_neg b)"

text \<open>The sign of a number that is not NaN, with the infinities.\<close>

fun js_sgn :: "number \<Rightarrow> int" where
  "js_sgn (Finite a) = (if a < 0 then - 1 else if a = 0 then 0 else 1)"
| "js_sgn PosInf = 1"
| "js_sgn NegInf = - 1"
| "js_sgn NaN = 0"

text \<open>\<^verbatim>\<open>a * b\<close>\<close>

fun js_mul :: "number \<Rightarrow> number \<Rightarrow> number" where
  "js_mul NaN _ = NaN"
| "js_mul _ NaN = NaN"
| "js_mul (Finite a) (Finite b) = js_round (a * b)"
| "js_mul a b =
     (if js_sgn a * js_sgn b = 0 then NaN
      else if 0 < js_sgn a * js_sgn b then PosInf else NegInf)"

text \<open>\<^verbatim>\<open>a < b\<close> and \<^verbatim>\<open>a <= b\<close>: false as soon as one side is NaN.\<close>

fun js_less :: "number \<Rightarrow> number \<Rightarrow> bool" where
  "js_less NaN _ = False"
| "js_less _ NaN = False"
| "js_less (Finite a) (Finite b) = (a < b)"
| "js_less PosInf _ = False"
| "js_less _ PosInf = True"
| "js_less NegInf NegInf = False"
| "js_less NegInf _ = True"
| "js_less _ NegInf = False"

definition js_le :: "number \<Rightarrow> number \<Rightarrow> bool" where
  "js_le a b = (a \<noteq> NaN \<and> b \<noteq> NaN \<and> (a = b \<or> js_less a b))"

text \<open>\<^verbatim>\<open>Math.max(a, b)\<close>: NaN if an argument is NaN, the larger one otherwise.\<close>

definition Math_max :: "number \<Rightarrow> number \<Rightarrow> number" where
  "Math_max a b = (if a = NaN \<or> b = NaN then NaN else if js_less a b then b else a)"

text \<open>\<^verbatim>\<open>Math.floor(a)\<close>: the floor of a binary64 value is a binary64 value.\<close>

fun Math_floor :: "number \<Rightarrow> number" where
  "Math_floor (Finite a) = Finite (of_int \<lfloor>a\<rfloor>)"
| "Math_floor a = a"

text \<open>
  \<^verbatim>\<open>+(x.toFixed(2))\<close>. \<^verbatim>\<open>Number.prototype.toFixed\<close> with two fraction digits:
  a value that is not finite, or of magnitude at least \<open>10^21\<close>, is printed by the
  general number printer, which the unary plus reads back unchanged. Otherwise
  the sign is split off and \<open>n\<close> is the integer for which \<open>n / 100\<close> is closest to
  the magnitude, the larger one of two; the digits of \<open>n\<close> are printed with a
  point before the last two. The unary plus reads the decimal string as the
  nearest binary64 value; the string is read exactly, whatever its length.
\<close>

definition toFixed_n :: "rat \<Rightarrow> int" where
  "toFixed_n x =
     (let f = \<lfloor>x * 100\<rfloor>
      in if x * 100 - of_int f < 1 / 2 then f else f + 1)"

fun toFixed2 :: "number \<Rightarrow> number" where
  "toFixed2 (Finite x) =
     (if 10 ^ 21 \<le> \<bar>x\<bar> then Finite x
      else if x < 0 then js_round (- (of_int (toFixed_n (- x)) / 100))
      else js_round (of_int (toFixed_n x) / 100))"
| "toFixed2 a = a"

text \<open>
  Rounding to two fractional digits, half away from zero, as the glossary words
  it; the counterpart of \<open>toFixed_n\<close> on exact values.
\<close>

definition round_half_away :: "rat \<Rightarrow> rat" where
  "round_half_away x = sgn x * of_int \<lfloor>\<bar>x\<bar> * 100 + 1 / 2\<rfloor> / 100"

text \<open>A decimal literal of the source denotes the nearest binary64 value.\<close>

definition lit :: "rat \<Rightarrow> number" where
  "lit x = js_round x"

section \<open>The cart page\<close>

text \<open>Strings are compared by \<^verbatim>\<open>===\<close>, which on strings is equality of their contents.\<close>

record PrintSize =
  label :: string
  price :: number

record CartItem =
  id_str :: string
  name :: string
  thumb :: string
  editInfo :: "string option"
  printSizes :: "PrintSize list"
  selectedSize :: string
  quantity :: number

definition TAX_RATE :: number where
  "TAX_RATE = lit (825 / 10000)"

definition SHIPPING :: number where
  "SHIPPING = lit (599 / 100)"

text \<open>
  \<^verbatim>\<open>Array.prototype.find\<close> returns the first element the test accepts and
  \<^verbatim>\<open>undefined\<close>, which is falsy, when there is none; an element is an object
  and truthy.
\<close>

definition getItemPrice :: "CartItem \<Rightarrow> number" where
  "getItemPrice item =
     (case find (\<lambda>s. label s = selectedSize item) (printSizes item) of
        Some sz \<Rightarrow> js_mul (price sz) (quantity item)
      | None \<Rightarrow> Finite 0)"

text \<open>\<^verbatim>\<open>randomOrderNumber\<close>, with the value that \<^verbatim>\<open>Math.random()\<close> returned as its argument.\<close>

definition randomOrderNumber :: "number \<Rightarrow> number" where
  "randomOrderNumber random =
     Math_floor (js_add (lit 100000) (js_mul random (lit 900000)))"

text \<open>
  The derived values of the \<^verbatim>\<open>Cart\<close> component, each a function of
  \<^verbatim>\<open>cartItems\<close>. \<^verbatim>\<open>reduce\<close> folds from the left, starting at \<open>0\<close>.
  \<open>shipping\<close> is the third summand of \<^verbatim>\<open>total\<close>.
\<close>

definition subtotal :: "CartItem list \<Rightarrow> number" where
  "subtotal cartItems = foldl (\<lambda>sum item. js_add sum (getItemPrice item)) (Finite 0) cartItems"

definition tax :: "CartItem list \<Rightarrow> number" where
  "tax cartItems = toFixed2 (js_mul (subtotal cartItems) TAX_RATE)"

definition shipping :: "CartItem list \<Rightarrow> number" where
  "shipping cartItems = (if 0 < length cartItems then SHIPPING else Finite 0)"

definition total :: "CartItem list \<Rightarrow> number" where
  "total cartItems =
     toFixed2 (js_add (js_add (subtotal cartItems) (tax cartItems)) (shipping cartItems))"

subsection \<open>Placing the order\<close>

text \<open>
  \<^verbatim>\<open>s.split(c)\<close> for a separator of one character: the pieces between the
  occurrences of \<open>c\<close>, at least one piece. \<open>cur\<close> is the piece being read.
\<close>

fun split_from :: "char \<Rightarrow> string \<Rightarrow> string \<Rightarrow> string list" where
  "split_from c cur [] = [cur]"
| "split_from c cur (x # xs) =
     (if x = c then cur # split_from c [] xs else split_from c (cur @ [x]) xs)"

definition split_str :: "string \<Rightarrow> char \<Rightarrow> string list" where
  "split_str s c = split_from c [] s"

text \<open>
  A \<^verbatim>\<open>Set\<close> of strings is the list of its elements in insertion order;
  \<^verbatim>\<open>new Set(xs)\<close> adds the elements of \<open>xs\<close> one by one, and adding an element
  that is already there changes nothing. \<^verbatim>\<open>Array.from\<close> lists the elements
  in that order.
\<close>

definition Set_add :: "'a list \<Rightarrow> 'a \<Rightarrow> 'a list" where
  "Set_add s x = (if x \<in> set s then s else s @ [x])"

definition new_Set :: "'a list \<Rightarrow> 'a list" where
  "new_Set xs = foldl Set_add [] xs"

text \<open>
  \<^verbatim>\<open>localStorage\<close> maps a key to a string. The page stores under
  \<^verbatim>\<open>"orderedSessions"\<close> the \<^verbatim>\<open>JSON.stringify\<close> of an array of strings and
  reads it back with \<^verbatim>\<open>JSON.parse\<close>; the model keeps the array itself.
  \<^verbatim>\<open>getItem\<close> returns \<^verbatim>\<open>null\<close>, which is falsy, for a key without value.
\<close>

type_synonym storage = "string \<rightharpoonup> string list"

text \<open>What the handler does besides writing: calls to functions defined outside the page.\<close>

datatype effect = ClearCart | Alert number | Navigate string

definition sessionIds :: "CartItem list \<Rightarrow> string list" where
  "sessionIds cartItems = new_Set (map (\<lambda>item. hd (split_str (id_str item) CHR ''-'')) cartItems)"

text \<open>The stored array as the handler reads it: empty when the key has no value.\<close>

definition readOrderedSessions :: "storage \<Rightarrow> string list" where
  "readOrderedSessions localStorage =
     (let stored = localStorage ''orderedSessions''
      in case stored of Some v \<Rightarrow> v | None \<Rightarrow> [])"

definition handlePlaceOrder :: "CartItem list \<Rightarrow> number \<Rightarrow> storage \<Rightarrow> storage \<times> effect list" where
  "handlePlaceOrder cartItems orderNumber localStorage =
     (let sessionIds = sessionIds cartItems;
          orderedSessions = readOrderedSessions localStorage;
          orderedSessions = new_Set (orderedSessions @ sessionIds)
      in (localStorage(''orderedSessions'' \<mapsto> orderedSessions),
          [ClearCart, Alert orderNumber, Navigate ''/'']))"

subsection \<open>The quantity buttons\<close>

text \<open>
  The object handed to \<^verbatim>\<open>updateCartItem\<close> names the fields to change.
  \<^verbatim>\<open>updateCartItem\<close> belongs to the cart context, which the page imports; it is a
  parameter here.
\<close>

record CartItemPatch =
  new_selectedSize :: "string option"
  new_quantity :: "number option"

definition decreaseQuantity :: "(string \<Rightarrow> CartItemPatch \<Rightarrow> 's \<Rightarrow> 's) \<Rightarrow> CartItem \<Rightarrow> 's \<Rightarrow> 's" where
  "decreaseQuantity updateCartItem item =
     updateCartItem (id_str item)
       \<lparr>new_selectedSize = None,
        new_quantity = Some (Math_max (Finite 1) (js_sub (quantity item) (Finite 1)))\<rparr>"

definition increaseQuantity :: "(string \<Rightarrow> CartItemPatch \<Rightarrow> 's \<Rightarrow> 's) \<Rightarrow> CartItem \<Rightarrow> 's \<Rightarrow> 's" where
  "increaseQuantity updateCartItem item =
     updateCartItem (id_str item)
       \<lparr>new_selectedSize = None,
        new_quantity = Some (js_add (quantity item) (Finite 1))\<rparr>"

section \<open>The failures of the language written out\<close>












text \<open>
  A string held by \<^verbatim>\<open>localStorage\<close> is kept by what the page can find out about
  it: it is empty (and falsy), or it is the JSON text of a value, or it is not
  JSON at all. \<^verbatim>\<open>JSON.stringify\<close> of an array is the JSON text of that array.
\<close>

datatype json =
  JNull | JBool bool | JNumber number | JString string
  | JArray "json list" | JObject "(string \<times> json) list"











section \<open>The summary in exact decimal arithmetic\<close>

text \<open>
  The tax and the total as the rule reads when products and sums are those of
  decimal numbers: the tax is the exact product rounded half away from zero, and
  the total the exact sum rounded again.
\<close>

definition decimal_tax :: "rat \<Rightarrow> rat" where
  "decimal_tax s = round_half_away (s * (825 / 10000))"

definition decimal_total :: "rat \<Rightarrow> rat \<Rightarrow> rat" where
  "decimal_total s sh = round_half_away (s + decimal_tax s + sh)"

section \<open>Sample carts\<close>

definition sizes :: "PrintSize list" where
  "sizes = [\<lparr>label = ''4x6'', price = Finite 2\<rparr>, \<lparr>label = ''5x7'', price = Finite 4\<rparr>]"

definition photo :: CartItem where
  "photo = \<lparr>id_str = ''s1-a'', name = ''a.jpg'', thumb = ''a.png'', editInfo = None,
     printSizes = sizes, selectedSize = ''5x7'', quantity = Finite 2\<rparr>"

definition photo_no_size :: CartItem where
  "photo_no_size = photo\<lparr>id_str := ''s2-b'', selectedSize := ''8x10''\<rparr>"

definition photo_negative :: CartItem where
  "photo_negative = photo\<lparr>id_str := ''s1-c'', quantity := Finite (- 2)\<rparr>"

definition two_photos :: "CartItem list" where
  "two_photos =
     [photo\<lparr>quantity := Finite 1\<rparr>,
      photo\<lparr>id_str := ''s1-d'', selectedSize := ''4x6'', quantity := Finite 1\<rparr>]"

section \<open>Binary exponents\<close>

lemma pow2_pos: "0 < (2::rat) powi e"
  by (simp add: zero_less_power_int)

lemma pow2_mono: "a \<le> b \<Longrightarrow> (2::rat) powi a \<le> 2 powi b"
  by (rule power_int_increasing) simp_all

lemma pow2_strict_mono: "a < b \<Longrightarrow> (2::rat) powi a < 2 powi b"
  by (rule power_int_strict_increasing) simp_all

lemma pow2_Suc: "(2::rat) powi (e + 1) = 2 * 2 powi e"
  by (simp add: power_int_add)

lemma pow2_less_cancel: "(2::rat) powi a < 2 powi b \<Longrightarrow> a < b"
  using pow2_mono [of b a] by (cases "a < b") simp_all

lemma of_int_bitlen_bounds:
  assumes "0 < (p::int)"
  shows "(2::rat) powi (bitlen p - 1) \<le> of_int p" and "(of_int p :: rat) < 2 powi bitlen p"
proof -
  from assms have b: "1 \<le> bitlen p" by (simp add: bitlen_alt_def)
  from bitlen_bounds [OF assms]
  have l: "2 ^ nat (bitlen p - 1) \<le> p" and u: "p < 2 ^ nat (bitlen p)" by simp_all
  from l have "(of_int (2 ^ nat (bitlen p - 1)) :: rat) \<le> of_int p"
    by (simp only: of_int_le_iff)
  with b show "(2::rat) powi (bitlen p - 1) \<le> of_int p"
    by (simp add: power_int_def)
  from u have "(of_int p :: rat) < of_int (2 ^ nat (bitlen p))"
    by (simp only: of_int_less_iff)
  with b show "(of_int p :: rat) < 2 powi bitlen p"
    by (simp add: power_int_def)
qed

lemma ilog2_bounds:
  assumes "0 < x"
  shows "2 powi ilog2 x \<le> x" and "x < 2 powi (ilog2 x + 1)"
proof -
  obtain p q where pq: "quotient_of x = (p, q)" by (cases "quotient_of x")
  then have q: "0 < q" and x: "x = of_int p / of_int q"
    by (simp_all add: quotient_of_denom_pos quotient_of_div)
  from assms x q have p: "0 < p" by (simp add: zero_less_divide_iff)
  define a b where "a = bitlen p" and "b = bitlen q"
  note pa = of_int_bitlen_bounds [OF p, folded a_def]
  note qb = of_int_bitlen_bounds [OF q, folded b_def]
  have qpos: "(0::rat) < of_int q" using q by simp
  have ppos: "(0::rat) < of_int p" using p by simp
  have "x < 2 powi a / 2 powi (b - 1)"
    unfolding x using pa qb ppos pow2_pos [of "b - 1"]
    by (intro frac_less) simp_all
  then have up: "x < 2 powi (a - b + 1)"
    by (simp add: power_int_diff power_int_add)
  have "2 powi (a - 1) / 2 powi b < x"
    unfolding x using pa qb qpos pow2_pos [of "a - 1"]
    by (intro frac_less2) simp_all
  then have lo: "2 powi (a - b - 1) < x"
    by (simp add: power_int_diff)
  have e: "ilog2 x = (if 2 powi (a - b) \<le> x then a - b else a - b - 1)"
    by (simp add: ilog2_def pq a_def b_def Let_def)
  show "2 powi ilog2 x \<le> x" using lo by (simp add: e)
  show "x < 2 powi (ilog2 x + 1)" using up by (simp add: e not_le)
qed

lemma ilog2_unique:
  assumes "2 powi e \<le> x" and "x < 2 powi (e + 1)"
  shows "ilog2 x = e"
proof -
  have x: "0 < x" using pow2_pos [of e] assms(1) by (rule less_le_trans)
  from ilog2_bounds [OF x] assms
  have u: "(2::rat) powi ilog2 x < 2 powi (e + 1)" and l: "(2::rat) powi e < 2 powi (ilog2 x + 1)"
    by simp_all
  from u have "ilog2 x < e + 1" by (rule pow2_less_cancel)
  moreover from l have "e < ilog2 x + 1" by (rule pow2_less_cancel)
  ultimately show ?thesis by simp
qed

lemma ilog2_mono:
  assumes "0 < x" and "x \<le> y"
  shows "ilog2 x \<le> ilog2 y"
proof -
  from assms have y: "0 < y" by simp
  from ilog2_bounds(1) [OF assms(1)] ilog2_bounds(2) [OF y] assms(2)
  have "(2::rat) powi ilog2 x < 2 powi (ilog2 y + 1)" by simp
  then have "ilog2 x < ilog2 y + 1" by (rule pow2_less_cancel)
  then show ?thesis by simp
qed

lemma ilog2_less_iff:
  assumes "0 < x"
  shows "ilog2 x < e \<longleftrightarrow> x < 2 powi e"
proof
  assume "ilog2 x < e"
  then have "ilog2 x + 1 \<le> e" by simp
  then have "(2::rat) powi (ilog2 x + 1) \<le> 2 powi e" by (rule pow2_mono)
  with ilog2_bounds(2) [OF assms] show "x < 2 powi e" by simp
next
  assume "x < 2 powi e"
  with ilog2_bounds(1) [OF assms] have "(2::rat) powi ilog2 x < 2 powi e" by simp
  then show "ilog2 x < e" by (rule pow2_less_cancel)
qed

lemma ilog2_zero: "ilog2 0 = - 2"
  by code_simp

lemma ilog2_one: "ilog2 1 = 0"
  by code_simp

section \<open>Rounding to the binary64 grid\<close>

lemma rne_of_int: "rne (of_int k) = k"
  by (simp add: rne_def)

lemma rne_cases: "rne m = \<lfloor>m\<rfloor> \<or> rne m = \<lfloor>m\<rfloor> + 1"
  by (simp add: rne_def Let_def)

lemma rne_mono:
  assumes "a \<le> b"
  shows "rne a \<le> rne b"
proof (cases "\<lfloor>a\<rfloor> = \<lfloor>b\<rfloor>")
  case True
  with assms show ?thesis by (auto simp: rne_def Let_def)
next
  case False
  with assms have "\<lfloor>a\<rfloor> + 1 \<le> \<lfloor>b\<rfloor>" using floor_mono [OF assms] by simp
  with rne_cases [of a] rne_cases [of b] show ?thesis by auto
qed

lemma rne_minus: "rne (- m) = - rne m"
proof (cases "m = of_int \<lfloor>m\<rfloor>")
  case True
  then obtain k where "m = of_int k" ..
  then have "- m = of_int (- k)" by simp
  then show ?thesis unfolding \<open>m = of_int k\<close> by (simp only: rne_of_int)
next
  case False
  have f: "\<lfloor>- m\<rfloor> = - \<lfloor>m\<rfloor> - 1"
    using False by (simp add: floor_minus ceiling_altdef)
  show ?thesis
    by (auto simp: rne_def Let_def f)
qed

text \<open>The rounded value is within half a unit in the last place.\<close>

lemma rne_error: "\<bar>of_int (rne m) - m\<bar> \<le> 1 / 2"
proof -
  have "of_int \<lfloor>m\<rfloor> \<le> m" "m < of_int \<lfloor>m\<rfloor> + 1" by linarith+
  then show ?thesis by (auto simp: rne_def Let_def abs_le_iff)
qed

lemma ulp_exp_minus: "ulp_exp (- x) = ulp_exp x"
  by (simp add: ulp_exp_def)

lemma ulp_exp_ge: "- 1074 \<le> ulp_exp x"
  by (simp add: ulp_exp_def)

lemma fl_zero: "fl 0 = 0"
  by (simp add: fl_def)

lemma fl_minus: "fl (- x) = - fl x"
  by (simp add: fl_def ulp_exp_minus rne_minus)

lemma fl_nonneg:
  assumes "0 \<le> x"
  shows "0 \<le> fl x"
proof -
  from assms have "0 \<le> x / 2 powi ulp_exp x"
    using pow2_pos [of "ulp_exp x"] by simp
  then have "rne 0 \<le> rne (x / 2 powi ulp_exp x)" by (rule rne_mono)
  then have "0 \<le> rne (x / 2 powi ulp_exp x)" using rne_of_int [of 0] by simp
  then show ?thesis using pow2_pos [of "ulp_exp x"] by (simp add: fl_def)
qed

lemma fl_grid:
  assumes "x / 2 powi ulp_exp x = of_int k"
  shows "fl x = x"
proof (cases "x = 0")
  case True
  then show ?thesis by (simp add: fl_def)
next
  case False
  have "of_int (rne (x / 2 powi ulp_exp x)) * 2 powi ulp_exp x = (x / 2 powi ulp_exp x) * 2 powi ulp_exp x"
    unfolding assms rne_of_int ..
  also have "\<dots> = x" using pow2_pos [of "ulp_exp x"] by simp
  finally show ?thesis using False by (simp add: fl_def)
qed

lemma scale_le: "a \<le> b \<Longrightarrow> (of_int a :: rat) * 2 powi u \<le> of_int b * 2 powi u"
  using pow2_pos [of u] by (simp add: mult_right_mono)

lemma fl_upper:
  assumes "0 < x"
  shows "fl x \<le> 2 powi (ulp_exp x + 53)"
proof -
  define u where "u = ulp_exp x"
  have "ilog2 x + 1 \<le> u + 53" using assms by (simp add: u_def ulp_exp_def)
  then have "(2::rat) powi (ilog2 x + 1) \<le> 2 powi (u + 53)" by (rule pow2_mono)
  with ilog2_bounds(2) [OF assms] have "x \<le> 2 powi (u + 53)" by simp
  then have "x / 2 powi u \<le> 2 powi (u + 53) / 2 powi u"
    using pow2_pos [of u] by (simp add: divide_right_mono)
  also have "\<dots> = of_int (2 ^ 53)" by (simp add: power_int_add)
  finally have "rne (x / 2 powi u) \<le> rne (of_int (2 ^ 53))" by (rule rne_mono)
  then have "rne (x / 2 powi u) \<le> 2 ^ 53" by (simp only: rne_of_int)
  then have "(of_int (rne (x / 2 powi u)) :: rat) * 2 powi u \<le> of_int (2 ^ 53) * 2 powi u"
    by (rule scale_le)
  also have "\<dots> = 2 powi (u + 53)" by (simp add: power_int_add)
  finally show ?thesis using assms by (simp add: fl_def u_def)
qed

lemma fl_lower:
  assumes "0 < x" and "- 1022 \<le> ilog2 x"
  shows "2 powi ilog2 x \<le> fl x"
proof -
  define u where "u = ulp_exp x"
  have e: "ilog2 x = u + 52" using assms by (simp add: u_def ulp_exp_def)
  have "2 powi (u + 52) / 2 powi u \<le> x / 2 powi u"
    using ilog2_bounds(1) [OF assms(1)] pow2_pos [of u] by (simp add: e divide_right_mono)
  moreover have "2 powi (u + 52) / 2 powi u = (of_int (2 ^ 52) :: rat)" by (simp add: power_int_add)
  ultimately have "rne (of_int (2 ^ 52)) \<le> rne (x / 2 powi u)" by (simp only: rne_mono)
  then have "2 ^ 52 \<le> rne (x / 2 powi u)" by (simp only: rne_of_int)
  then have a: "(of_int (2 ^ 52) :: rat) * 2 powi u \<le> of_int (rne (x / 2 powi u)) * 2 powi u"
    by (rule scale_le)
  have b: "of_int (2 ^ 52) * 2 powi u = (2::rat) powi (u + 52)" by (simp add: power_int_add)
  have c: "fl x = of_int (rne (x / 2 powi u)) * 2 powi u" using assms by (simp add: fl_def u_def)
  from a show ?thesis by (simp only: b c e)
qed

lemma fl_mono_pos:
  assumes "0 < x" and "x \<le> y"
  shows "fl x \<le> fl y"
proof -
  from assms have y: "0 < y" by simp
  have le: "ulp_exp x \<le> ulp_exp y"
    using ilog2_mono [OF assms] assms y by (simp add: ulp_exp_def)
  show ?thesis
  proof (cases "ulp_exp x = ulp_exp y")
    case True
    from assms(2) have "x / 2 powi ulp_exp y \<le> y / 2 powi ulp_exp y"
      using pow2_pos [of "ulp_exp y"] by (simp add: divide_right_mono)
    then have "rne (x / 2 powi ulp_exp y) \<le> rne (y / 2 powi ulp_exp y)" by (rule rne_mono)
    then have "(of_int (rne (x / 2 powi ulp_exp y)) :: rat) * 2 powi ulp_exp y
        \<le> of_int (rne (y / 2 powi ulp_exp y)) * 2 powi ulp_exp y"
      by (rule scale_le)
    then show ?thesis using assms y by (simp add: fl_def True)
  next
    case False
    with le have lt: "ulp_exp x < ulp_exp y" by simp
    then have n: "- 1022 \<le> ilog2 y" and ey: "ilog2 y = ulp_exp y + 52"
      using y by (simp_all add: ulp_exp_def max_def split: if_splits)
    from lt have "ulp_exp x + 53 \<le> ulp_exp y + 52" by simp
    then have "(2::rat) powi (ulp_exp x + 53) \<le> 2 powi (ulp_exp y + 52)" by (rule pow2_mono)
    with fl_upper [OF assms(1)] fl_lower [OF y n] show ?thesis by (simp add: ey)
  qed
qed

lemma fl_mono:
  assumes "x \<le> y"
  shows "fl x \<le> fl y"
proof -
  consider "0 < x" | "x \<le> 0" "0 \<le> y" | "y < 0" by linarith
  then show ?thesis
  proof cases
    case 1
    then show ?thesis using assms by (rule fl_mono_pos)
  next
    case 2
    then have "0 \<le> fl (- x)" and "0 \<le> fl y" by (simp_all add: fl_nonneg)
    then show ?thesis by (simp add: fl_minus)
  next
    case 3
    with assms have "0 < - y" and "- y \<le> - x" by simp_all
    then have "fl (- y) \<le> fl (- x)" by (rule fl_mono_pos)
    then show ?thesis by (simp add: fl_minus)
  qed
qed

lemma fl_error: "\<bar>fl x - x\<bar> \<le> 2 powi ulp_exp x / 2"
proof (cases "x = 0")
  case True
  then show ?thesis using pow2_pos [of "ulp_exp 0"] by (simp add: fl_zero)
next
  case False
  define u where "u = (2::rat) powi ulp_exp x"
  have u: "0 < u" unfolding u_def by (rule pow2_pos)
  have "fl x - x = (of_int (rne (x / u)) - x / u) * u"
    using False u by (simp add: fl_def u_def field_simps)
  then have "\<bar>fl x - x\<bar> = \<bar>of_int (rne (x / u)) - x / u\<bar> * u"
    using u by (simp add: abs_mult)
  also have "\<dots> \<le> (1 / 2) * u" using u rne_error [of "x / u"] by (intro mult_right_mono) simp_all
  finally show ?thesis by (simp add: u_def)
qed

subsection \<open>Values on the grid\<close>

lemma grid_scale:
  assumes "j \<le> 0"
  shows "of_int k / 2 powi j = (of_int (k * 2 ^ nat (- j)) :: rat)"
proof -
  have "(2::rat) powi j = 1 / 2 powi (- j)" by (simp add: power_int_minus_divide)
  also have "(2::rat) powi (- j) = 2 ^ nat (- j)" using assms by (simp add: power_int_def)
  finally show ?thesis by simp
qed

lemma fl_two_53: "fl (2 ^ 53) = 2 ^ 53"
  by code_simp

lemma fl_of_nat_int:
  assumes "0 < k" and "k \<le> 2 ^ 53"
  shows "fl (of_int k) = of_int k"
proof (cases "k = 2 ^ 53")
  case True
  then show ?thesis using fl_two_53 by simp
next
  case False
  with assms have "k < 2 ^ 53" by simp
  then have "(of_int k :: rat) < of_int (2 ^ 53)" by (simp only: of_int_less_iff)
  then have lt: "(of_int k :: rat) < 2 powi 53" by simp
  from assms(1) have pos: "(0::rat) < of_int k" by simp
  from assms(1) have "(1::rat) \<le> of_int k" by (simp add: int_one_le_iff_zero_less)
  with ilog2_mono [of 1 "of_int k"] have lo: "0 \<le> ilog2 (of_int k)" by (simp add: ilog2_one)
  from lt have "ilog2 (of_int k) < 53" using ilog2_less_iff [OF pos] by simp
  with lo pos have u: "ulp_exp (of_int k) \<le> 0"
    by (simp add: ulp_exp_def)
  from grid_scale [OF u] show ?thesis by (rule fl_grid)
qed

lemma fl_of_int:
  assumes "\<bar>k\<bar> \<le> 2 ^ 53"
  shows "fl (of_int k) = of_int k"
proof -
  consider "k < 0" | "k = 0" | "0 < k" by linarith
  then show ?thesis
  proof cases
    case 1
    with assms have "fl (of_int (- k)) = of_int (- k)" by (intro fl_of_nat_int) simp_all
    then show ?thesis by (simp add: fl_minus)
  next
    case 2
    then show ?thesis by (simp add: fl_zero)
  next
    case 3
    with assms show ?thesis by (intro fl_of_nat_int) simp_all
  qed
qed

lemma grid_shift:
  assumes "j \<le> u"
  shows "(of_int k * 2 powi u) / 2 powi j = (of_int (k * 2 ^ nat (u - j)) :: rat)"
proof -
  have "(2::rat) powi u / 2 powi j = 2 powi (u - j)" by (simp add: power_int_diff)
  also have "\<dots> = 2 ^ nat (u - j)" using assms by (simp add: power_int_def)
  finally have "(2::rat) powi u / 2 powi j = 2 ^ nat (u - j)" .
  then have "(of_int k * 2 powi u) / 2 powi j = (of_int k :: rat) * 2 ^ nat (u - j)"
    by (simp only: times_divide_eq_right [symmetric])
  then show ?thesis by simp
qed

lemma fl_idem_pos:
  assumes "0 < x"
  shows "fl (fl x) = fl x"
proof -
  define u where "u = ulp_exp x"
  define k where "k = rne (x / 2 powi u)"
  have v: "fl x = of_int k * 2 powi u" using assms by (simp add: fl_def u_def k_def)
  have u74: "- 1074 \<le> u" unfolding u_def by (rule ulp_exp_ge)
  from fl_nonneg [of x] assms have "0 \<le> of_int k * (2::rat) powi u" by (simp add: v)
  then have k0: "0 \<le> k" using pow2_pos [of u] by (simp add: zero_le_mult_iff)
  from fl_upper [OF assms] have "of_int k * 2 powi u \<le> (2::rat) powi (u + 53)"
    by (simp add: v u_def)
  also have "(2::rat) powi (u + 53) = of_int (2 ^ 53) * 2 powi u" by (simp add: power_int_add)
  finally have "(of_int k :: rat) \<le> of_int (2 ^ 53)"
    using pow2_pos [of u] by (simp only: mult_le_cancel_right_pos)
  then have k53: "k \<le> 2 ^ 53" by (simp only: of_int_le_iff)
  consider "k = 0" | "0 < k" "k < 2 ^ 53" | "k = 2 ^ 53" using k0 k53 by linarith
  then show ?thesis
  proof cases
    case 1
    then show ?thesis by (simp add: v fl_zero)
  next
    case 2
    then have pos: "0 < fl x" using pow2_pos [of u] by (simp add: v)
    from 2 have "(of_int k :: rat) < of_int (2 ^ 53)" by (simp only: of_int_less_iff)
    then have "of_int k * 2 powi u < of_int (2 ^ 53) * (2::rat) powi u"
      using pow2_pos [of u] by (simp only: mult_less_cancel_right_pos)
    also have "of_int (2 ^ 53) * (2::rat) powi u = 2 powi (u + 53)" by (simp add: power_int_add)
    finally have "fl x < 2 powi (u + 53)" by (simp only: v)
    then have "ilog2 (fl x) < u + 53" using ilog2_less_iff [OF pos] by simp
    with u74 pos have j: "ulp_exp (fl x) \<le> u" by (simp add: ulp_exp_def)
    from grid_shift [OF j, of k] have "fl x / 2 powi ulp_exp (fl x) = of_int (k * 2 ^ nat (u - ulp_exp (fl x)))"
      by (simp only: v [symmetric])
    then show ?thesis by (rule fl_grid)
  next
    case 3
    then have e: "fl x = 2 powi (u + 53)" by (simp add: v power_int_add)
    have "(2::rat) powi (u + 53) < 2 powi (u + 53 + 1)" by (rule pow2_strict_mono) simp
    with ilog2_unique [of "u + 53" "2 powi (u + 53)"] have "ilog2 (fl x) = u + 53"
      by (simp add: e)
    moreover have "\<bar>fl x\<bar> = fl x" unfolding e using pow2_pos [of "u + 53"] by simp
    ultimately have j: "ulp_exp (fl x) = u + 1" using u74 by (simp add: ulp_exp_def)
    have "fl x / 2 powi ulp_exp (fl x) = 2 powi (u + 53) / 2 powi (u + 1)"
      unfolding j by (simp only: e)
    also have "\<dots> = 2 powi ((u + 53) - (u + 1))" by (rule power_int_diff [symmetric]) simp
    also have "\<dots> = of_int (2 ^ 52)" by simp
    finally show ?thesis by (rule fl_grid)
  qed
qed

lemma fl_idem: "fl (fl x) = fl x"
proof -
  consider "x < 0" | "x = 0" | "0 < x" by linarith
  then show ?thesis
  proof cases
    case 1
    then have "fl (fl (- x)) = fl (- x)" by (intro fl_idem_pos) simp
    then show ?thesis by (simp add: fl_minus)
  next
    case 2
    then show ?thesis by (simp add: fl_zero)
  next
    case 3
    then show ?thesis by (rule fl_idem_pos)
  qed
qed

lemma below_one:
  assumes "fl r = r" and "r < 1"
  shows "r \<le> 1 - 1 / 2 ^ 53"
proof (cases "r < 1 / 2")
  case True
  then show ?thesis by simp
next
  case False
  then have h: "2 powi (- 1) \<le> r" by simp
  from assms(2) have "r < 2 powi (- 1 + 1)" by simp
  with h have "ilog2 r = - 1" by (rule ilog2_unique)
  moreover from False have "\<bar>r\<bar> = r" by simp
  ultimately have u: "ulp_exp r = - 53" by (simp add: ulp_exp_def)
  define k where "k = rne (r / 2 powi (- 53))"
  from False have "r \<noteq> 0" by auto
  with assms(1) have "of_int k * 2 powi (- 53) = r"
    by (simp add: fl_def u k_def)
  moreover have "(2::rat) powi (- 53) = 1 / 2 ^ 53" by code_simp
  ultimately have r: "r = of_int k / 2 ^ 53" by simp
  with assms(2) have "(of_int k :: rat) < of_int (2 ^ 53)" by simp
  then have "k < 2 ^ 53" by (simp only: of_int_less_iff)
  then have "k \<le> 2 ^ 53 - 1" by simp
  then have "(of_int k :: rat) \<le> of_int (2 ^ 53 - 1)" by (simp only: of_int_le_iff)
  then show ?thesis unfolding r by (simp add: field_simps)
qed

lemma fl_power2: "fl (2 ^ n) = 2 ^ n"
proof -
  have p: "(2::rat) ^ n = 2 powi int n" by simp
  have "(2::rat) powi int n < 2 powi (int n + 1)" by (rule pow2_strict_mono) simp
  with ilog2_unique [of "int n" "2 powi int n"] have "ilog2 (2 powi int n) = int n" by simp
  moreover have "\<bar>(2::rat) powi int n\<bar> = 2 powi int n" using pow2_pos [of "int n"] by simp
  ultimately have u: "ulp_exp (2 powi int n) = int n - 52" by (simp add: ulp_exp_def)
  have "(2::rat) powi int n / 2 powi (int n - 52) = 2 powi (int n - (int n - 52))"
    by (rule power_int_diff [symmetric]) simp
  also have "\<dots> = of_int (2 ^ 52)" by simp
  finally have "(2::rat) powi int n / 2 powi ulp_exp (2 powi int n) = of_int (2 ^ 52)"
    by (simp only: u)
  then have "fl (2 powi int n) = 2 powi int n" by (rule fl_grid)
  then show ?thesis by (simp only: p)
qed

lemma fl_abs_le:
  assumes "\<bar>x\<bar> \<le> 2 ^ n"
  shows "\<bar>fl x\<bar> \<le> 2 ^ n"
proof -
  from assms have "x \<le> 2 ^ n" and "- (2 ^ n) \<le> x" by (simp_all add: abs_le_iff)
  then have "fl x \<le> fl (2 ^ n)" and "fl (- (2 ^ n)) \<le> fl x" by (simp_all only: fl_mono)
  then show ?thesis by (simp add: fl_minus fl_power2 abs_le_iff)
qed


subsection \<open>The rounded value is a nearest grid value\<close>

text \<open>
  The grid values are the fixed points of \<open>fl\<close>. Between the two multiples of
  the unit in the last place that enclose \<open>x\<close> there is no grid value, so no
  grid value is closer to \<open>x\<close> than \<open>fl x\<close>; at a tie \<open>rne\<close> takes the
  even significand.
\<close>

lemma cell_same_ulp:
  assumes x: "0 < x"
    and lo: "of_int \<lfloor>x / 2 powi ulp_exp x\<rfloor> * 2 powi ulp_exp x < y"
    and hi: "y < (of_int \<lfloor>x / 2 powi ulp_exp x\<rfloor> + 1) * 2 powi ulp_exp x"
  shows "ulp_exp y = ulp_exp x"
proof -
  define u where "u = ulp_exp x"
  define f where "f = \<lfloor>x / 2 powi u\<rfloor>"
  have up: "0 < (2::rat) powi u" by (rule pow2_pos)
  from x up have "0 \<le> x / 2 powi u" by simp
  then have f0: "0 \<le> f" unfolding f_def by simp
  then have "0 \<le> (of_int f :: rat) * 2 powi u" using up by simp
  with lo have y: "0 < y" by (simp add: u_def f_def)
  show ?thesis
  proof (cases "- 1022 \<le> ilog2 x")
    case True
    with x have e: "ilog2 x = u + 52" by (simp add: u_def ulp_exp_def)
    have "2 powi (u + 52) / 2 powi u \<le> x / 2 powi u"
      using ilog2_bounds(1) [OF x] up by (simp add: e divide_right_mono)
    moreover have "2 powi (u + 52) / 2 powi u = (of_int (2 ^ 52) :: rat)"
      by (simp add: power_int_add)
    ultimately have "2 ^ 52 \<le> f" unfolding f_def by (simp only: le_floor_iff)
    then have "(of_int (2 ^ 52) :: rat) * 2 powi u \<le> of_int f * 2 powi u" by (rule scale_le)
    also have "\<dots> < y" using lo by (simp only: u_def f_def)
    finally have "(of_int (2 ^ 52) :: rat) * 2 powi u < y" .
    moreover have "(of_int (2 ^ 52) :: rat) * 2 powi u = 2 powi (u + 52)"
      by (simp add: power_int_add)
    ultimately have l: "2 powi (u + 52) \<le> y" by (simp only: less_imp_le)
    have "x / 2 powi u < 2 powi (u + 52 + 1) / 2 powi u"
      using ilog2_bounds(2) [OF x] up by (simp add: e divide_strict_right_mono)
    moreover have "2 powi (u + 52 + 1) / 2 powi u = (of_int (2 ^ 53) :: rat)"
      by (simp add: power_int_add)
    ultimately have "f < 2 ^ 53" unfolding f_def by (simp only: floor_less_iff)
    then have "f + 1 \<le> 2 ^ 53" by simp
    then have "(of_int (f + 1) :: rat) * 2 powi u \<le> of_int (2 ^ 53) * 2 powi u" by (rule scale_le)
    moreover have "y < of_int (f + 1) * 2 powi u" using hi by (simp only: u_def f_def of_int_add of_int_1)
    ultimately have "y < of_int (2 ^ 53) * 2 powi u" by (rule less_le_trans [rotated])
    moreover have "(of_int (2 ^ 53) :: rat) * 2 powi u = 2 powi (u + 52 + 1)"
      by (simp add: power_int_add)
    ultimately have h: "y < 2 powi (u + 52 + 1)" by (simp only:)
    from l h have "ilog2 y = u + 52" by (rule ilog2_unique)
    with e y x show ?thesis by (simp add: ulp_exp_def)
  next
    case False
    with x have u: "u = - 1074" by (simp add: u_def ulp_exp_def)
    from False have "ilog2 x + 1 \<le> - 1022" by simp
    then have "(2::rat) powi (ilog2 x + 1) \<le> 2 powi (- 1022)" by (rule pow2_mono)
    with ilog2_bounds(2) [OF x] have "x < 2 powi (- 1022)" by (rule less_le_trans)
    then have "x / 2 powi u < 2 powi (- 1022) / 2 powi u"
      using up by (rule divide_strict_right_mono)
    moreover have t: "(of_int (2 ^ 52) :: rat) * 2 powi u = 2 powi (- 1022)"
    proof -
      have "(2::rat) powi (52 + u) = 2 powi 52 * 2 powi u" by (rule power_int_add) simp
      moreover have "52 + u = - 1022" by (simp add: u)
      ultimately show ?thesis by simp
    qed
    have "(of_int (2 ^ 52) :: rat) * 2 powi u / 2 powi u = of_int (2 ^ 52)" by simp
    then have "2 powi (- 1022) / 2 powi u = (of_int (2 ^ 52) :: rat)" by (simp only: t)
    ultimately have "x / 2 powi u < of_int (2 ^ 52)" by (simp only:)
    then have "f < 2 ^ 52" unfolding f_def by (simp only: floor_less_iff)
    then have "f + 1 \<le> 2 ^ 52" by simp
    then have "(of_int (f + 1) :: rat) * 2 powi u \<le> of_int (2 ^ 52) * 2 powi u" by (rule scale_le)
    moreover have "y < of_int (f + 1) * 2 powi u" using hi by (simp only: u_def f_def of_int_add of_int_1)
    ultimately have "y < of_int (2 ^ 52) * 2 powi u" by (rule less_le_trans [rotated])
    then have "y < 2 powi (- 1022)" by (simp only: t)
    then have "ilog2 y < - 1022" using ilog2_less_iff [OF y] by simp
    with y have "ulp_exp y = - 1074" by (simp add: ulp_exp_def)
    with u show ?thesis by (simp add: u_def)
  qed
qed

lemma no_grid_in_cell:
  assumes x: "0 < x"
    and lo: "of_int \<lfloor>x / 2 powi ulp_exp x\<rfloor> * 2 powi ulp_exp x < y"
    and hi: "y < (of_int \<lfloor>x / 2 powi ulp_exp x\<rfloor> + 1) * 2 powi ulp_exp x"
  shows "fl y \<noteq> y"
proof
  assume g: "fl y = y"
  define u where "u = ulp_exp x"
  define f where "f = \<lfloor>x / 2 powi u\<rfloor>"
  have up: "0 < (2::rat) powi u" by (rule pow2_pos)
  have uy: "ulp_exp y = u" unfolding u_def using x lo hi by (rule cell_same_ulp)
  from x up have "0 \<le> x / 2 powi u" by simp
  then have "0 \<le> f" unfolding f_def by simp
  then have "0 \<le> (of_int f :: rat) * 2 powi u" using up by simp
  with lo have "y \<noteq> 0" by (simp add: u_def f_def)
  with g have "of_int (rne (y / 2 powi u)) * 2 powi u = y" by (simp add: fl_def uy)
  then have k: "y / 2 powi u = of_int (rne (y / 2 powi u))"
    using up by (simp add: field_simps)
  from lo have "of_int f < y / 2 powi u" using up by (simp add: u_def f_def field_simps)
  then have 1: "f < rne (y / 2 powi u)" by (subst (asm) k) (simp only: of_int_less_iff)
  from hi have "y / 2 powi u < of_int (f + 1)" using up by (simp add: u_def f_def field_simps)
  then have 2: "rne (y / 2 powi u) < f + 1" by (subst (asm) k) (simp only: of_int_less_iff)
  from 1 2 show False by simp
qed

lemma fl_cell:
  assumes "x \<noteq> 0"
  shows "fl x = of_int \<lfloor>x / 2 powi ulp_exp x\<rfloor> * 2 powi ulp_exp x
    \<or> fl x = (of_int \<lfloor>x / 2 powi ulp_exp x\<rfloor> + 1) * 2 powi ulp_exp x"
  using assms rne_cases [of "x / 2 powi ulp_exp x"] by (auto simp: fl_def)

lemma fl_nearest_pos:
  assumes x: "0 < x" and g: "fl y = y"
  shows "\<bar>fl x - x\<bar> \<le> \<bar>y - x\<bar>"
proof -
  define u where "u = (2::rat) powi ulp_exp x"
  define f where "f = \<lfloor>x / u\<rfloor>"
  have up: "0 < u" unfolding u_def by (rule pow2_pos)
  have "of_int f \<le> x / u" "x / u < of_int f + 1" unfolding f_def by linarith+
  then have b: "of_int f * u \<le> x" "x < (of_int f + 1) * u"
    using up by (simp_all add: pos_le_divide_eq pos_divide_less_eq)
  have cell: "y \<le> of_int f * u \<or> (of_int f + 1) * u \<le> y"
    using no_grid_in_cell [OF x, of y] g unfolding u_def f_def by force
  have err: "\<bar>fl x - x\<bar> \<le> u / 2" unfolding u_def by (rule fl_error)
  from x have "x \<noteq> 0" by simp
  from fl_cell [OF this] have c: "fl x = of_int f * u \<or> fl x = (of_int f + 1) * u"
    by (simp add: u_def f_def)
  from cell show ?thesis
  proof
    assume "y \<le> of_int f * u"
    with b c err show ?thesis by (auto simp: algebra_simps abs_le_iff)
  next
    assume "(of_int f + 1) * u \<le> y"
    with b c err show ?thesis by (auto simp: algebra_simps abs_le_iff)
  qed
qed

lemma fl_nearest:
  assumes "fl y = y"
  shows "\<bar>fl x - x\<bar> \<le> \<bar>y - x\<bar>"
proof -
  consider "x < 0" | "x = 0" | "0 < x" by linarith
  then show ?thesis
  proof cases
    case 1
    from assms have "fl (- y) = - y" by (simp add: fl_minus)
    with 1 have "\<bar>fl (- x) - (- x)\<bar> \<le> \<bar>(- y) - (- x)\<bar>" by (intro fl_nearest_pos) simp_all
    then show ?thesis by (simp add: fl_minus abs_minus_commute)
  next
    case 2
    then show ?thesis by (simp add: fl_zero)
  next
    case 3
    then show ?thesis using assms by (rule fl_nearest_pos)
  qed
qed

subsection \<open>Rounded results as numbers\<close>

lemma js_round_zero: "js_round 0 = Finite 0"
  by code_simp

lemma js_round_8: "js_round 8 = Finite 8"
  by code_simp

lemma js_round_finite:
  assumes "\<bar>fl x\<bar> < 2 powi 1024"
  shows "js_round x = Finite (fl x)"
proof (cases "fl x = 0")
  case True
  then show ?thesis by (simp add: js_round_def ilog2_zero)
next
  case False
  then have "0 < \<bar>fl x\<bar>" by simp
  from ilog2_less_iff [OF this, of 1024] assms show ?thesis
    by (simp add: js_round_def)
qed

lemma js_round_bounded:
  assumes "\<bar>x\<bar> \<le> 2 ^ n" and "n < 1024"
  shows "js_round x = Finite (fl x)"
proof -
  from assms(1) have "\<bar>fl x\<bar> \<le> 2 ^ n" by (rule fl_abs_le)
  also have "(2::rat) ^ n = 2 powi int n" by simp
  also have "(2::rat) powi int n < 2 powi 1024" using assms(2) by (intro pow2_strict_mono) simp
  finally show ?thesis by (rule js_round_finite)
qed


lemma small_range: "\<bar>v\<bar> \<le> 2 ^ 20 \<Longrightarrow> \<bar>v\<bar> < (2::rat) powi 1024"
proof -
  assume "\<bar>v\<bar> \<le> 2 ^ 20"
  also have "(2::rat) ^ 20 = 2 powi 20" by simp
  also have "(2::rat) powi 20 < 2 powi 1024" by (rule pow2_strict_mono) simp
  finally show ?thesis .
qed

lemma js_round_of_int:
  assumes "\<bar>k\<bar> \<le> 2 ^ 53"
  shows "js_round (of_int k) = Finite (of_int k)"
proof -
  have "(of_int \<bar>k\<bar> :: rat) \<le> of_int (2 ^ 53)" using assms by (simp only: of_int_le_iff)
  then have "\<bar>of_int k :: rat\<bar> \<le> 2 powi 53" by simp
  also have "(2::rat) powi 53 < 2 powi 1024" by (rule pow2_strict_mono) simp
  finally have "\<bar>fl (of_int k)\<bar> < 2 powi 1024" by (simp only: fl_of_int [OF assms])
  then have "js_round (of_int k) = Finite (fl (of_int k))" by (rule js_round_finite)
  then show ?thesis by (simp only: fl_of_int [OF assms])
qed

lemma js_round_not_NaN: "js_round x \<noteq> NaN"
  by (simp add: js_round_def Let_def)

lemma is_number_js_round: "is_number (js_round x)"
  by (simp add: js_round_def Let_def fl_idem)

lemma is_number_js_add: "is_number (js_add a b)"
  by (cases a; cases b) (simp_all add: is_number_js_round)

lemma is_number_js_mul: "is_number (js_mul a b)"
  by (cases a; cases b) (simp_all add: is_number_js_round)

lemma is_number_toFixed2: "is_number a \<Longrightarrow> is_number (toFixed2 a)"
  by (cases a) (simp_all add: is_number_js_round del: is_number.simps(1))

lemma is_number_zero: "is_number (Finite 0)"
  by (simp add: fl_zero ilog2_zero)


section \<open>Splitting and sets\<close>

lemma hd_split_from: "hd (split_from c cur s) = cur @ takeWhile (\<lambda>x. x \<noteq> c) s"
  by (induction s arbitrary: cur) simp_all

lemma split_from_not_Nil: "split_from c cur s \<noteq> []"
  by (induction s arbitrary: cur) simp_all

lemma hd_split_str: "hd (split_str s c) = takeWhile (\<lambda>x. x \<noteq> c) s"
  by (simp add: split_str_def hd_split_from)

lemma set_foldl_Set_add: "set (foldl Set_add acc xs) = set acc \<union> set xs"
  by (induction xs arbitrary: acc) (auto simp: Set_add_def)

lemma distinct_foldl_Set_add: "distinct acc \<Longrightarrow> distinct (foldl Set_add acc xs)"
  by (induction xs arbitrary: acc) (auto simp: Set_add_def)

lemma set_new_Set: "set (new_Set xs) = set xs"
  by (simp add: new_Set_def set_foldl_Set_add)

lemma distinct_new_Set: "distinct (new_Set xs)"
  by (simp add: new_Set_def distinct_foldl_Set_add)

lemma foldl_Set_add_absorb: "set xs \<subseteq> set acc \<Longrightarrow> foldl Set_add acc xs = acc"
  by (induction xs arbitrary: acc) (auto simp: Set_add_def)

lemma foldl_Set_add_distinct: "distinct (acc @ xs) \<Longrightarrow> foldl Set_add acc xs = acc @ xs"
  by (induction xs arbitrary: acc) (auto simp: Set_add_def)

lemma new_Set_distinct: "distinct xs \<Longrightarrow> new_Set xs = xs"
  by (simp add: new_Set_def foldl_Set_add_distinct)

lemma new_Set_append_absorb:
  assumes "distinct xs" and "set ys \<subseteq> set xs"
  shows "new_Set (xs @ ys) = xs"
proof -
  have "new_Set (xs @ ys) = foldl Set_add (new_Set xs) ys" by (simp add: new_Set_def)
  also have "\<dots> = foldl Set_add xs ys" using assms(1) by (simp add: new_Set_distinct)
  also have "\<dots> = xs" using assms(2) by (rule foldl_Set_add_absorb)
  finally show ?thesis .
qed

lemma set_sessionIds: "set (sessionIds cartItems) = (\<lambda>item. takeWhile (\<lambda>x. x \<noteq> CHR ''-'') (id_str item)) ` set cartItems"
  by (simp add: sessionIds_def set_new_Set hd_split_str)

section \<open>The price of a line\<close>

lemma find_distinct_label:
  assumes "distinct (map label ps)" and "e \<in> set ps" and "label e = sel"
  shows "find (\<lambda>s. label s = sel) ps = Some e"
  using assms by (induction ps) (auto simp: image_iff)

lemma find_label_None: "sel \<notin> label ` set ps \<Longrightarrow> find (\<lambda>s. label s = sel) ps = None"
  by (auto simp: find_None_iff)

lemma find_label_Some:
  assumes "sel \<in> label ` set ps"
  shows "\<exists>e \<in> set ps. label e = sel \<and> find (\<lambda>s. label s = sel) ps = Some e"
proof (cases "find (\<lambda>s. label s = sel) ps")
  case None
  with assms show ?thesis by (auto simp: find_None_iff)
next
  case (Some e)
  then show ?thesis by (auto simp: find_Some_iff)
qed

text \<open>
  Claim C1. When \<open>selectedSize\<close> is the label of an entry of \<open>printSizes\<close>,
  \<open>getItemPrice\<close> returns the price of such an entry times the quantity, the
  product being the binary64 product; with labels unique within the item, as
  the data model has them, this holds for every entry carrying the label.
  When no entry carries the label the result is \<open>0\<close>.
\<close>

theorem getItemPrice_selected:
  "(selectedSize item \<in> label ` set (printSizes item) \<longrightarrow>
      (\<exists>e \<in> set (printSizes item). label e = selectedSize item \<and>
         getItemPrice item = js_mul (price e) (quantity item)))
   \<and> (distinct (map label (printSizes item)) \<longrightarrow>
      (\<forall>e \<in> set (printSizes item). label e = selectedSize item \<longrightarrow>
         getItemPrice item = js_mul (price e) (quantity item)))
   \<and> (selectedSize item \<notin> label ` set (printSizes item) \<longrightarrow> getItemPrice item = Finite 0)"
proof (intro conjI impI ballI)
  assume "selectedSize item \<in> label ` set (printSizes item)"
  from find_label_Some [OF this]
  show "\<exists>e \<in> set (printSizes item). label e = selectedSize item \<and>
         getItemPrice item = js_mul (price e) (quantity item)"
    by (auto simp: getItemPrice_def)
next
  fix e
  assume "distinct (map label (printSizes item))" "e \<in> set (printSizes item)"
    "label e = selectedSize item"
  then have "find (\<lambda>s. label s = selectedSize item) (printSizes item) = Some e"
    by (rule find_distinct_label)
  then show "getItemPrice item = js_mul (price e) (quantity item)"
    by (simp add: getItemPrice_def)
next
  assume "selectedSize item \<notin> label ` set (printSizes item)"
  then show "getItemPrice item = Finite 0"
    by (simp add: getItemPrice_def find_label_None)
qed

theorem getItemPrice_selected_witness:
  "getItemPrice photo = js_mul (Finite 4) (Finite 2) \<and> getItemPrice photo_no_size = Finite 0"
proof -
  have d: "distinct (map label (printSizes photo))"
    by (simp add: photo_def sizes_def)
  have m: "\<lparr>label = ''5x7'', price = Finite 4\<rparr> \<in> set (printSizes photo)"
    by (simp add: photo_def sizes_def)
  have l: "label \<lparr>label = ''5x7'', price = Finite 4\<rparr> = selectedSize photo"
    by (simp add: photo_def)
  have n: "selectedSize photo_no_size \<notin> label ` set (printSizes photo_no_size)"
    by (simp add: photo_no_size_def photo_def sizes_def)
  from getItemPrice_selected [of photo] d m l
  have "getItemPrice photo = js_mul (price \<lparr>label = ''5x7'', price = Finite 4\<rparr>) (quantity photo)"
    by blast
  moreover from getItemPrice_selected [of photo_no_size] n
  have "getItemPrice photo_no_size = Finite 0" by blast
  ultimately show ?thesis by (simp add: photo_def)
qed

section \<open>The order summary\<close>

lemma toFixed_n_floor: "toFixed_n x = \<lfloor>x * 100 + 1 / 2\<rfloor>"
proof -
  define f where "f = \<lfloor>x * 100\<rfloor>"
  have b: "of_int f \<le> x * 100" "x * 100 < of_int f + 1"
    unfolding f_def by linarith+
  show ?thesis
  proof (cases "x * 100 - of_int f < 1 / 2")
    case True
    with b have "\<lfloor>x * 100 + 1 / 2\<rfloor> = f" by (intro floor_unique) simp_all
    with True show ?thesis by (simp add: toFixed_n_def f_def Let_def)
  next
    case False
    with b have "\<lfloor>x * 100 + 1 / 2\<rfloor> = f + 1" by (intro floor_unique) simp_all
    with False show ?thesis by (simp add: toFixed_n_def f_def Let_def)
  qed
qed

lemma toFixed_n_nearest: "\<bar>of_int (toFixed_n x) - x * 100\<bar> \<le> \<bar>of_int k - x * 100\<bar>"
proof -
  define n where "n = \<lfloor>x * 100 + 1 / 2\<rfloor>"
  have b: "of_int n \<le> x * 100 + 1 / 2" "x * 100 + 1 / 2 < of_int n + 1"
    unfolding n_def by linarith+
  consider "k \<le> n - 1" | "k = n" | "n + 1 \<le> k" by linarith
  then have "\<bar>of_int n - x * 100\<bar> \<le> \<bar>of_int k - x * 100\<bar>"
  proof cases
    case 1
    then have "(of_int k :: rat) \<le> of_int (n - 1)" by (simp only: of_int_le_iff)
    with b show ?thesis by simp
  next
    case 2
    then show ?thesis by simp
  next
    case 3
    then have "(of_int (n + 1) :: rat) \<le> of_int k" by (simp only: of_int_le_iff)
    with b show ?thesis by simp
  qed
  then show ?thesis by (simp add: toFixed_n_floor n_def)
qed

lemma toFixed2_round_half_away:
  assumes "\<bar>x\<bar> < 10 ^ 21"
  shows "toFixed2 (Finite x) = js_round (round_half_away x)"
proof -
  consider "x < 0" | "x = 0" | "0 < x" by linarith
  then show ?thesis
  proof cases
    case 1
    with assms show ?thesis by (simp add: toFixed_n_floor round_half_away_def)
  next
    case 2
    have "\<lfloor>1 / 2 :: rat\<rfloor> = 0" by (rule floor_unique) simp_all
    with 2 show ?thesis by (simp add: toFixed_n_floor round_half_away_def)
  next
    case 3
    with assms show ?thesis by (simp add: toFixed_n_floor round_half_away_def)
  qed
qed

lemma summary_one_item:
  assumes "getItemPrice item = Finite 8"
  shows "subtotal [item] = Finite 8" and "tax [item] = lit (66 / 100)"
    and "total [item] = lit (1465 / 100)"
proof -
  have a: "js_round 8 = Finite 8" by code_simp
  show s: "subtotal [item] = Finite 8" by (simp add: subtotal_def assms a)
  have b: "toFixed2 (js_mul (Finite 8) (lit (825 / 10000))) = lit (66 / 100)" by code_simp
  show t: "tax [item] = lit (66 / 100)" unfolding tax_def s TAX_RATE_def by (rule b)
  have h: "shipping [item] = SHIPPING" by (simp add: shipping_def)
  have c: "toFixed2 (js_add (js_add (Finite 8) (lit (66 / 100))) (lit (599 / 100))) = lit (1465 / 100)"
    by code_simp
  show "total [item] = lit (1465 / 100)" unfolding total_def s t h SHIPPING_def by (rule c)
qed

lemma round_half_away_error: "\<bar>round_half_away x - x\<bar> \<le> 1 / 200"
proof -
  define a where "a = \<bar>x\<bar>"
  define n where "n = \<lfloor>a * 100 + 1 / 2\<rfloor>"
  have "of_int n \<le> a * 100 + 1 / 2" "a * 100 + 1 / 2 < of_int n + 1"
    unfolding n_def by linarith+
  then have "of_int n / 100 - a \<le> 1 / 200" "- (1 / 200) \<le> of_int n / 100 - a"
    by linarith+
  then have b: "\<bar>of_int n / 100 - a\<bar> \<le> 1 / 200" by (simp only: abs_le_iff) simp
  consider "x < 0" | "x = 0" | "0 < x" by linarith
  then show ?thesis
  proof cases
    case 1
    then have "round_half_away x - x = - (of_int n / 100 - a)"
      by (simp add: round_half_away_def n_def a_def)
    with b show ?thesis by (simp only: abs_minus)
  next
    case 2
    have "\<lfloor>1 / 2 :: rat\<rfloor> = 0" by (rule floor_unique) simp_all
    with 2 show ?thesis by (simp add: round_half_away_def)
  next
    case 3
    then have "round_half_away x - x = of_int n / 100 - a"
      by (simp add: round_half_away_def n_def a_def)
    with b show ?thesis by simp
  qed
qed

lemma round_half_away_abs_le:
  assumes "\<bar>x\<bar> \<le> 2 ^ n"
  shows "\<bar>round_half_away x\<bar> \<le> 2 ^ Suc n"
proof -
  have "\<bar>round_half_away x\<bar> \<le> \<bar>round_half_away x - x\<bar> + \<bar>x\<bar>" by simp
  also have "\<dots> \<le> 1 / 200 + 2 ^ n" using round_half_away_error [of x] assms by simp
  also have "\<dots> \<le> 2 ^ n + 2 ^ n"
  proof -
    have "(1::rat) \<le> 2 ^ n" by (rule one_le_power) simp
    then show ?thesis by linarith
  qed
  finally show ?thesis by simp
qed

lemma tax_rate_value: "lit (825 / 10000) = Finite (fl (825 / 10000))"
  by code_simp

lemma tax_rate_bounds: "0 \<le> fl (825 / 10000) \<and> fl (825 / 10000) \<le> 1"
  by code_simp

lemma shipping_value: "lit (599 / 100) = Finite (fl (599 / 100))"
  by code_simp

lemma shipping_bounds: "0 \<le> fl (599 / 100) \<and> fl (599 / 100) \<le> 2 ^ 3"
  by code_simp

lemma tax_formula:
  assumes s: "subtotal cartItems = Finite s" and b: "\<bar>s\<bar> \<le> 2 ^ 64"
  shows "tax cartItems = Finite (fl (round_half_away (fl (s * fl (825 / 10000)))))"
    and "\<bar>fl (round_half_away (fl (s * fl (825 / 10000))))\<bar> \<le> 2 ^ 65"
proof -
  define c where "c = fl (825 / 10000)"
  define p where "p = fl (s * c)"
  from tax_rate_bounds have c: "0 \<le> c" "c \<le> 1" by (simp_all add: c_def)
  have "\<bar>s * c\<bar> = \<bar>s\<bar> * c" using c by (simp add: abs_mult)
  also have "\<dots> \<le> \<bar>s\<bar> * 1" using c by (intro mult_left_mono) simp_all
  finally have sc: "\<bar>s * c\<bar> \<le> 2 ^ 64" using b by simp
  then have m: "js_round (s * c) = Finite p" unfolding p_def by (rule js_round_bounded) simp
  from sc have pb: "\<bar>p\<bar> \<le> 2 ^ 64" unfolding p_def by (rule fl_abs_le)
  also have "(2::rat) ^ 64 < 10 ^ 21" by simp
  finally have p21: "\<bar>p\<bar> < 10 ^ 21" .
  from pb have rb: "\<bar>round_half_away p\<bar> \<le> 2 ^ 65"
    using round_half_away_abs_le [of p 64] by simp
  then have r: "js_round (round_half_away p) = Finite (fl (round_half_away p))"
    by (rule js_round_bounded) simp
  have "tax cartItems = toFixed2 (js_mul (Finite s) (Finite c))"
    by (simp only: tax_def s TAX_RATE_def tax_rate_value c_def)
  also have "\<dots> = toFixed2 (Finite p)" by (simp add: m)
  also have "\<dots> = js_round (round_half_away p)" using p21 by (rule toFixed2_round_half_away)
  finally have "tax cartItems = Finite (fl (round_half_away p))" by (simp only: r)
  then show "tax cartItems = Finite (fl (round_half_away (fl (s * fl (825 / 10000)))))"
    unfolding p_def c_def .
  from rb show "\<bar>fl (round_half_away (fl (s * fl (825 / 10000))))\<bar> \<le> 2 ^ 65"
    unfolding p_def c_def by (rule fl_abs_le)
qed

lemma total_formula:
  assumes s: "subtotal cartItems = Finite s" and b: "\<bar>s\<bar> \<le> 2 ^ 64"
    and t: "t = fl (round_half_away (fl (s * fl (825 / 10000))))"
  shows "total cartItems =
    Finite (fl (round_half_away (fl (fl (s + t) + (if cartItems = [] then 0 else fl (599 / 100))))))"
proof -
  define h where "h = (if cartItems = [] then 0 else fl (599 / 100))"
  from tax_formula [OF s b] have tx: "tax cartItems = Finite t" and tb: "\<bar>t\<bar> \<le> 2 ^ 65"
    by (simp_all only: t)
  have sh: "shipping cartItems = Finite h"
    by (simp add: shipping_def SHIPPING_def shipping_value h_def)
  from shipping_bounds have hb: "\<bar>h\<bar> \<le> 2 ^ 3" by (simp add: h_def)
  have "\<bar>s + t\<bar> \<le> \<bar>s\<bar> + \<bar>t\<bar>" by simp
  also have "\<dots> \<le> 2 ^ 64 + 2 ^ 65" using b tb by simp
  also have "\<dots> \<le> (2::rat) ^ 66" by simp
  finally have st: "\<bar>s + t\<bar> \<le> 2 ^ 66" .
  then have a1: "js_round (s + t) = Finite (fl (s + t))" by (rule js_round_bounded) simp
  from st have fb: "\<bar>fl (s + t)\<bar> \<le> 2 ^ 66" by (rule fl_abs_le)
  have "\<bar>fl (s + t) + h\<bar> \<le> \<bar>fl (s + t)\<bar> + \<bar>h\<bar>" by simp
  also have "\<dots> \<le> 2 ^ 66 + 2 ^ 3" using fb hb by simp
  also have "\<dots> \<le> (2::rat) ^ 67" by simp
  finally have sb: "\<bar>fl (s + t) + h\<bar> \<le> 2 ^ 67" .
  define w where "w = fl (fl (s + t) + h)"
  from sb have a2: "js_round (fl (s + t) + h) = Finite w" unfolding w_def
    by (rule js_round_bounded) simp
  from sb have wb: "\<bar>w\<bar> \<le> 2 ^ 67" unfolding w_def by (rule fl_abs_le)
  also have "(2::rat) ^ 67 < 10 ^ 21" by simp
  finally have w21: "\<bar>w\<bar> < 10 ^ 21" .
  from wb have "\<bar>round_half_away w\<bar> \<le> 2 ^ 68" using round_half_away_abs_le [of w 67] by simp
  then have r: "js_round (round_half_away w) = Finite (fl (round_half_away w))"
    by (rule js_round_bounded) simp
  have "total cartItems = toFixed2 (js_add (js_add (Finite s) (Finite t)) (Finite h))"
    by (simp only: total_def s tx sh)
  also have "\<dots> = toFixed2 (Finite w)" by (simp add: a1 a2)
  also have "\<dots> = js_round (round_half_away w)" using w21 by (rule toFixed2_round_half_away)
  finally have "total cartItems = Finite (fl (round_half_away w))" by (simp only: r)
  then show ?thesis unfolding w_def h_def .
qed

lemma subtotal_two_photos: "subtotal two_photos = Finite 6"
  by code_simp

text \<open>
  Claim C2, amended. The tax is the binary64 product of the subtotal and the
  number \<open>0.0825\<close>, rounded to two digits; the total is the binary64 sum of
  subtotal, rounded tax and shipping, rounded again. The rounding takes the
  exact value of the number it is given, rounds it half away from zero to two
  digits, within half a cent, and returns the nearest number. For a finite
  subtotal of magnitude up to \<open>2 ^ 64\<close> this gives the tax and the total in
  closed form, every rounding step written out. A cart of one item whose
  selected size costs \<open>4\<close>, with quantity \<open>2\<close>, has subtotal \<open>8\<close>, tax \<open>0.66\<close> and
  total \<open>14.65\<close>.
\<close>

theorem summary_rounding:
  "tax cartItems = toFixed2 (js_mul (subtotal cartItems) (lit (825 / 10000)))
   \<and> total cartItems =
       toFixed2 (js_add (js_add (subtotal cartItems) (tax cartItems)) (shipping cartItems))
   \<and> (\<forall>x. \<bar>x\<bar> < 10 ^ 21 \<longrightarrow> toFixed2 (Finite x) = js_round (round_half_away x))
   \<and> (\<forall>x. \<bar>round_half_away x - x\<bar> \<le> 1 / 200)
   \<and> (\<forall>s. subtotal cartItems = Finite s \<longrightarrow> \<bar>s\<bar> \<le> 2 ^ 64 \<longrightarrow>
         tax cartItems = Finite (fl (round_half_away (fl (s * fl (825 / 10000)))))
         \<and> total cartItems =
             Finite (fl (round_half_away (fl (fl (s + fl (round_half_away (fl (s * fl (825 / 10000)))))
               + (if cartItems = [] then 0 else fl (599 / 100)))))))
   \<and> (\<forall>sz. find (\<lambda>s. label s = selectedSize item) (printSizes item) = Some sz \<longrightarrow>
         price sz = Finite 4 \<longrightarrow> quantity item = Finite 2 \<longrightarrow>
         subtotal [item] = Finite 8 \<and> tax [item] = lit (66 / 100) \<and>
         total [item] = lit (1465 / 100))"
proof (intro conjI allI impI)
  show "tax cartItems = toFixed2 (js_mul (subtotal cartItems) (lit (825 / 10000)))"
    by (simp add: tax_def TAX_RATE_def)
  show "total cartItems =
       toFixed2 (js_add (js_add (subtotal cartItems) (tax cartItems)) (shipping cartItems))"
    by (simp add: total_def)
next
  fix x :: rat
  assume "\<bar>x\<bar> < 10 ^ 21"
  then show "toFixed2 (Finite x) = js_round (round_half_away x)"
    by (rule toFixed2_round_half_away)
next
  fix x :: rat
  show "\<bar>round_half_away x - x\<bar> \<le> 1 / 200" by (rule round_half_away_error)
next
  fix s
  assume s: "subtotal cartItems = Finite s" and b: "\<bar>s\<bar> \<le> 2 ^ 64"
  from s b show "tax cartItems = Finite (fl (round_half_away (fl (s * fl (825 / 10000)))))"
    by (rule tax_formula)
  from s b show "total cartItems =
      Finite (fl (round_half_away (fl (fl (s + fl (round_half_away (fl (s * fl (825 / 10000)))))
        + (if cartItems = [] then 0 else fl (599 / 100))))))"
    by (rule total_formula) (rule refl)
next
  fix sz
  assume "find (\<lambda>s. label s = selectedSize item) (printSizes item) = Some sz"
    "price sz = Finite 4" "quantity item = Finite 2"
  then have g: "getItemPrice item = Finite 8"
    by (simp add: getItemPrice_def js_round_8)
  from summary_one_item [OF g]
  show "subtotal [item] = Finite 8" "tax [item] = lit (66 / 100)"
    "total [item] = lit (1465 / 100)" .
qed

theorem summary_rounding_witness:
  "subtotal [photo] = Finite 8 \<and> tax [photo] = lit (66 / 100) \<and> total [photo] = lit (1465 / 100)
   \<and> tax two_photos = Finite (fl (round_half_away (fl (6 * fl (825 / 10000)))))
   \<and> total two_photos =
       Finite (fl (round_half_away (fl (fl (6 + fl (round_half_away (fl (6 * fl (825 / 10000)))))
         + fl (599 / 100)))))
   \<and> toFixed2 (Finite (1 / 8)) = js_round (13 / 100)
   \<and> toFixed2 (Finite (- 1 / 8)) = js_round (- 13 / 100)"
proof -
  note T = summary_rounding [of "[photo]" photo]
  note U = summary_rounding [of two_photos photo]
  have f: "find (\<lambda>s. label s = selectedSize photo) (printSizes photo)
      = Some \<lparr>label = ''5x7'', price = Finite 4\<rparr>"
    by (simp add: photo_def sizes_def)
  have p: "price \<lparr>label = ''5x7'', price = Finite 4\<rparr> = Finite 4" by simp
  have q: "quantity photo = Finite 2" by (simp add: photo_def)
  from T f p q
  have S: "subtotal [photo] = Finite 8 \<and> tax [photo] = lit (66 / 100) \<and>
      total [photo] = lit (1465 / 100)" by blast
  have b6: "\<bar>6 :: rat\<bar> \<le> 2 ^ 64" by simp
  have ne: "(if two_photos = [] then 0 else fl (599 / 100)) = fl (599 / 100)"
    by (simp add: two_photos_def)
  from U subtotal_two_photos b6
  have V: "tax two_photos = Finite (fl (round_half_away (fl (6 * fl (825 / 10000)))))
    \<and> total two_photos =
       Finite (fl (round_half_away (fl (fl (6 + fl (round_half_away (fl (6 * fl (825 / 10000)))))
         + (if two_photos = [] then 0 else fl (599 / 100))))))" by blast
  from T have R: "\<bar>x\<bar> < 10 ^ 21 \<Longrightarrow> toFixed2 (Finite x) = js_round (round_half_away x)" for x
    by blast
  have r2: "round_half_away (1 / 8) = 13 / 100" by code_simp
  have r3: "round_half_away (- 1 / 8) = - 13 / 100" by code_simp
  have b2: "\<bar>1 / 8 :: rat\<bar> < 10 ^ 21" by simp
  have b3: "\<bar>- 1 / 8 :: rat\<bar> < 10 ^ 21" by simp
  from R [OF b2] have e2: "toFixed2 (Finite (1 / 8)) = js_round (13 / 100)" unfolding r2 .
  from R [OF b3] have e3: "toFixed2 (Finite (- 1 / 8)) = js_round (- 13 / 100)" unfolding r3 .
  from S V [unfolded ne] e2 e3 show ?thesis by (intro conjI) blast+
qed

text \<open>
  The claim read with decimal products fails: for two items of prices \<open>4\<close> and
  \<open>2\<close> the subtotal is \<open>6\<close>, and \<open>6 * 0.0825 = 0.495\<close> rounds half away from zero
  to \<open>0.50\<close>, with total \<open>12.49\<close>. The binary64 product lies just below \<open>0.495\<close>,
  and the page shows the tax \<open>0.49\<close> and the total \<open>12.48\<close>.
\<close>

theorem decimal_tie_counterexample:
  "subtotal two_photos = Finite 6
   \<and> decimal_tax 6 = 50 / 100
   \<and> tax two_photos = lit (49 / 100)
   \<and> tax two_photos \<noteq> lit (decimal_tax 6)
   \<and> decimal_total 6 (599 / 100) = 1249 / 100
   \<and> total two_photos = lit (1248 / 100)
   \<and> total two_photos \<noteq> lit (decimal_total 6 (599 / 100))"
proof -
  have 1: "subtotal two_photos = Finite 6" by code_simp
  have 2: "decimal_tax 6 = 50 / 100" by code_simp
  have 3: "tax two_photos = lit (49 / 100)" by code_simp
  have 4: "tax two_photos \<noteq> lit (decimal_tax 6)" by code_simp
  have 5: "decimal_total 6 (599 / 100) = 1249 / 100" by code_simp
  have 6: "total two_photos = lit (1248 / 100)" by code_simp
  have 7: "total two_photos \<noteq> lit (decimal_total 6 (599 / 100))" by code_simp
  from 1 2 3 4 5 6 7 show ?thesis by (intro conjI)
qed

section \<open>Placing the order\<close>

lemma readOrderedSessions_update:
  "readOrderedSessions (st(''orderedSessions'' \<mapsto> xs)) = xs"
  by (simp add: readOrderedSessions_def)

lemma fst_handlePlaceOrder:
  "fst (handlePlaceOrder cartItems n st) =
     st(''orderedSessions'' \<mapsto> new_Set (readOrderedSessions st @ sessionIds cartItems))"
  by (simp add: handlePlaceOrder_def Let_def)

text \<open>
  Claim C3. After \<open>handlePlaceOrder\<close> the stored array holds, as a set, the
  session ids stored before together with the prefix of every item's id up to
  its first \<open>-\<close> (the whole id when it has none), and no entry twice.
\<close>

theorem handlePlaceOrder_union:
  "set (readOrderedSessions (fst (handlePlaceOrder cartItems orderNumber localStorage))) =
     set (readOrderedSessions localStorage) \<union>
     (\<lambda>item. takeWhile (\<lambda>c. c \<noteq> CHR ''-'') (id_str item)) ` set cartItems
   \<and> distinct (readOrderedSessions (fst (handlePlaceOrder cartItems orderNumber localStorage)))"
  by (simp only: fst_handlePlaceOrder readOrderedSessions_update set_new_Set set_append
      set_sessionIds distinct_new_Set simp_thms)

text \<open>
  Claim C4. Placing the same cart again on the storage the first call left
  changes nothing: the storage is the same, and the stored array has no
  duplicate.
\<close>

theorem handlePlaceOrder_idempotent:
  "fst (handlePlaceOrder cartItems n2 (fst (handlePlaceOrder cartItems n1 localStorage))) =
     fst (handlePlaceOrder cartItems n1 localStorage)
   \<and> distinct (readOrderedSessions
        (fst (handlePlaceOrder cartItems n2 (fst (handlePlaceOrder cartItems n1 localStorage)))))"
proof -
  define merged where "merged = new_Set (readOrderedSessions localStorage @ sessionIds cartItems)"
  have 1: "fst (handlePlaceOrder cartItems n1 localStorage) = localStorage(''orderedSessions'' \<mapsto> merged)"
    by (simp only: fst_handlePlaceOrder merged_def)
  have "set (sessionIds cartItems) \<subseteq> set merged"
    by (simp add: merged_def set_new_Set)
  moreover have "distinct merged" by (simp add: merged_def distinct_new_Set)
  ultimately have 2: "new_Set (merged @ sessionIds cartItems) = merged"
    by (simp only: new_Set_append_absorb)
  have 3: "fst (handlePlaceOrder cartItems n2 (localStorage(''orderedSessions'' \<mapsto> merged))) =
      localStorage(''orderedSessions'' \<mapsto> merged)"
    by (simp add: fst_handlePlaceOrder readOrderedSessions_update 2)
  show ?thesis
    unfolding 1 3 by (simp add: readOrderedSessions_update \<open>distinct merged\<close>)
qed

section \<open>Shipping and the empty cart\<close>

text \<open>
  Claim C5. The shipping summand is the number \<open>5.99\<close> for every cart that is
  not empty, whatever its length, and \<open>0\<close> for the empty cart.
\<close>

theorem shipping_flat:
  "(cartItems \<noteq> [] \<longrightarrow> shipping cartItems = lit (599 / 100)) \<and> shipping [] = Finite 0"
  by (simp add: shipping_def SHIPPING_def)

theorem shipping_flat_witness:
  "shipping [photo] = lit (599 / 100) \<and> shipping [photo, photo_no_size, photo_negative] = lit (599 / 100)"
  using shipping_flat [of "[photo]"] shipping_flat [of "[photo, photo_no_size, photo_negative]"]
  by simp

text \<open>
  Claim C6. For the empty cart, subtotal, tax, shipping and total are all \<open>0\<close>.
\<close>

theorem empty_cart_summary:
  "subtotal [] = Finite 0 \<and> tax [] = Finite 0 \<and> shipping [] = Finite 0 \<and> total [] = Finite 0"
proof -
  have s: "subtotal [] = Finite 0" by (simp add: subtotal_def)
  have t: "tax [] = Finite 0" unfolding tax_def s TAX_RATE_def by code_simp
  have h: "shipping [] = Finite 0" by (simp add: shipping_def)
  have "total [] = Finite 0" unfolding total_def s t h by code_simp
  with s t h show ?thesis by simp
qed

section \<open>The order number\<close>

lemma lit_100000: "lit 100000 = Finite 100000"
  by code_simp

lemma lit_900000: "lit 900000 = Finite 900000"
  by code_simp

lemma fl_product_top: "fl ((1 - 1 / 2 ^ 53) * 900000) = 900000 - 1 / 2 ^ 33"
  by code_simp

lemma fl_100000: "fl 100000 = 100000"
  by code_simp

lemma fl_sum_top: "fl (100000 + (900000 - 1 / 2 ^ 33)) = 1000000 - 1 / 2 ^ 33"
  by code_simp

text \<open>
  Claim C7. For every number that \<^verbatim>\<open>Math.random()\<close> can return, a binary64
  value at least \<open>0\<close> and below \<open>1\<close>, \<open>randomOrderNumber\<close> returns an integer
  between \<open>100000\<close> and \<open>999999\<close>, both included. The largest such value is
  \<open>1 - 1 / 2 ^ 53\<close>; its product with \<open>900000\<close> rounds to the binary64 value just
  below \<open>900000\<close>, so the sum stays below \<open>1000000\<close>.
\<close>

theorem randomOrderNumber_range:
  assumes "is_number random" and "js_le (Finite 0) random" and "js_less random (Finite 1)"
  shows "\<exists>n::int. randomOrderNumber random = Finite (of_int n) \<and> 100000 \<le> n \<and> n \<le> 999999"
proof -
  from assms(2,3) obtain r where random: "random = Finite r"
    by (cases random) (simp_all add: js_le_def)
  from assms random have g: "fl r = r" and lo: "0 \<le> r" and hi: "r < 1"
    by (auto simp: js_le_def)
  from below_one [OF g hi] have top: "r \<le> 1 - 1 / 2 ^ 53" .
  define p where "p = fl (r * 900000)"
  have "fl 0 \<le> p" unfolding p_def using lo by (intro fl_mono) simp
  then have p0: "0 \<le> p" by (simp add: fl_zero)
  have "p \<le> fl ((1 - 1 / 2 ^ 53) * 900000)"
    unfolding p_def using top by (intro fl_mono) simp
  then have p1: "p \<le> 900000 - 1 / 2 ^ 33" by (simp only: fl_product_top)
  from p0 p1 have "\<bar>p\<bar> \<le> 2 ^ 20" by simp
  then have "js_round (r * 900000) = Finite p"
    unfolding p_def by (intro js_round_finite small_range)
  then have mul: "js_mul random (lit 900000) = Finite p"
    by (simp add: random lit_900000)
  define s where "s = fl (100000 + p)"
  have "fl 100000 \<le> s" unfolding s_def using p0 by (intro fl_mono) simp
  then have s0: "100000 \<le> s" by (simp only: fl_100000)
  have "s \<le> fl (100000 + (900000 - 1 / 2 ^ 33))"
    unfolding s_def using p1 by (intro fl_mono) simp
  then have s1: "s \<le> 1000000 - 1 / 2 ^ 33" by (simp only: fl_sum_top)
  from s0 s1 have "\<bar>s\<bar> \<le> 2 ^ 20" by simp
  then have "js_round (100000 + p) = Finite s"
    unfolding s_def by (intro js_round_finite small_range)
  then have r: "randomOrderNumber random = Finite (of_int \<lfloor>s\<rfloor>)"
    by (simp add: randomOrderNumber_def mul lit_100000)
  from s0 have "100000 \<le> \<lfloor>s\<rfloor>" by (simp add: le_floor_iff)
  moreover from s1 have "s < 1000000" by simp
  then have "\<lfloor>s\<rfloor> < 1000000" by (simp add: floor_less_iff)
  ultimately show ?thesis using r by auto
qed

lemma half_number: "is_number (Finite (1 / 2))"
  by code_simp

theorem randomOrderNumber_range_witness:
  "randomOrderNumber (Finite (1 / 2)) = Finite 550000"
proof -
  have a: "is_number (Finite (1 / 2))" by (rule half_number)
  have b: "js_le (Finite 0) (Finite (1 / 2))" by (simp add: js_le_def)
  have c: "js_less (Finite (1 / 2)) (Finite 1)" by simp
  from randomOrderNumber_range [OF a b c]
  obtain n :: int where "randomOrderNumber (Finite (1 / 2)) = Finite (of_int n)" by blast
  moreover have "randomOrderNumber (Finite (1 / 2)) = Finite 550000" by code_simp
  ultimately show ?thesis by simp
qed

section \<open>Failure and malformed input\<close>


lemma is_number_foldl_add:
  "is_number acc \<Longrightarrow> is_number (foldl (\<lambda>sum item. js_add sum (f item)) acc xs)"
  by (induction xs arbitrary: acc) (simp_all add: is_number_js_add)

lemma is_number_subtotal: "is_number (subtotal cartItems)"
  unfolding subtotal_def by (rule is_number_foldl_add) (rule is_number_zero)

lemma is_number_tax: "is_number (tax cartItems)"
  unfolding tax_def by (rule is_number_toFixed2) (rule is_number_js_mul)

lemma is_number_total: "is_number (total cartItems)"
  unfolding total_def by (rule is_number_toFixed2) (rule is_number_js_add)

lemma is_number_SHIPPING: "is_number SHIPPING"
  by (simp add: SHIPPING_def lit_def is_number_js_round)

lemma is_number_shipping: "is_number (shipping cartItems)"
  by (simp add: shipping_def is_number_SHIPPING is_number_zero del: is_number.simps(1))

























section \<open>The quantity buttons\<close>

lemma js_sub_one_not_NaN: "q \<noteq> NaN \<Longrightarrow> js_sub q (Finite 1) \<noteq> NaN"
  by (cases q) (simp_all add: js_sub_def js_round_not_NaN)

lemma Math_max_ge: "y \<noteq> NaN \<Longrightarrow> js_le (Finite 1) (Math_max (Finite 1) y)"
  by (cases y) (auto simp: Math_max_def js_le_def)

text \<open>
  Claim C9. For an item whose quantity is at least \<open>1\<close>, the decrease button
  hands \<open>updateCartItem\<close> the quantity \<open>Math.max(1, quantity - 1)\<close>, which is
  at least \<open>1\<close>; for an integer quantity \<open>n\<close> up to \<open>2 ^ 53\<close> it is exactly
  \<open>max 1 (n - 1)\<close>.
\<close>

theorem decreaseQuantity_floor:
  assumes "js_le (Finite 1) (quantity item)"
  shows "\<exists>q. decreaseQuantity updateCartItem item =
        updateCartItem (id_str item) \<lparr>new_selectedSize = None, new_quantity = Some q\<rparr>
      \<and> q = Math_max (Finite 1) (js_sub (quantity item) (Finite 1))
      \<and> js_le (Finite 1) q
      \<and> (\<forall>n::int. quantity item = Finite (of_int n) \<longrightarrow> n \<le> 2 ^ 53 \<longrightarrow>
            q = Finite (of_int (max 1 (n - 1))))"
proof -
  define q where "q = Math_max (Finite 1) (js_sub (quantity item) (Finite 1))"
  from assms have "quantity item \<noteq> NaN" by (simp add: js_le_def)
  then have "js_sub (quantity item) (Finite 1) \<noteq> NaN" by (rule js_sub_one_not_NaN)
  then have ge: "js_le (Finite 1) q" unfolding q_def by (rule Math_max_ge)
  have ex: "q = Finite (of_int (max 1 (n - 1)))"
    if n: "quantity item = Finite (of_int n)" and b: "n \<le> 2 ^ 53" for n :: int
  proof -
    from assms n have "(of_int 1 :: rat) \<le> of_int n" by (auto simp: js_le_def)
    then have n1: "1 \<le> n" by (simp only: of_int_le_iff)
    with b have "\<bar>n - 1\<bar> \<le> 2 ^ 53" by simp
    then have "js_round (of_int (n - 1)) = Finite (of_int (n - 1))" by (rule js_round_of_int)
    then have "js_sub (quantity item) (Finite 1) = Finite (of_int (n - 1))"
      by (simp add: js_sub_def n)
    then show ?thesis using n1 by (auto simp: q_def Math_max_def max_def)
  qed
  have "decreaseQuantity updateCartItem item =
      updateCartItem (id_str item) \<lparr>new_selectedSize = None, new_quantity = Some q\<rparr>"
    by (simp add: decreaseQuantity_def q_def)
  with ge ex show ?thesis unfolding q_def by blast
qed

theorem decreaseQuantity_floor_witness:
  "decreaseQuantity (\<lambda>i p s. (i, new_quantity p) # s) photo [] = [(''s1-a'', Some (Finite 1))]
   \<and> decreaseQuantity (\<lambda>i p s. (i, new_quantity p) # s) (photo\<lparr>quantity := Finite 1\<rparr>) []
       = [(''s1-a'', Some (Finite 1))]"
proof -
  have a: "js_le (Finite 1) (quantity photo)" by (simp add: photo_def js_le_def)
  have b: "js_le (Finite 1) (quantity (photo\<lparr>quantity := Finite 1\<rparr>))" by (simp add: js_le_def)
  have na: "quantity photo = Finite (of_int 2)" by (simp add: photo_def)
  have nb: "quantity (photo\<lparr>quantity := Finite 1\<rparr>) = Finite (of_int 1)" by simp
  have i: "id_str photo = ''s1-a''" "id_str (photo\<lparr>quantity := Finite 1\<rparr>) = ''s1-a''"
    by (simp_all add: photo_def)
  from decreaseQuantity_floor [OF a, of "\<lambda>i p s. (i, new_quantity p) # s"] na
  obtain q where "decreaseQuantity (\<lambda>i p s. (i, new_quantity p) # s) photo =
      (\<lambda>s. (id_str photo, new_quantity \<lparr>new_selectedSize = None, new_quantity = Some q\<rparr>) # s)"
    and "q = Finite (of_int (max 1 (2 - 1)))"
    by fastforce
  then have 1: "decreaseQuantity (\<lambda>i p s. (i, new_quantity p) # s) photo [] = [(''s1-a'', Some (Finite 1))]"
    by (simp add: i)
  from decreaseQuantity_floor [OF b, of "\<lambda>i p s. (i, new_quantity p) # s"] nb
  obtain q where "decreaseQuantity (\<lambda>i p s. (i, new_quantity p) # s) (photo\<lparr>quantity := Finite 1\<rparr>) =
      (\<lambda>s. (id_str (photo\<lparr>quantity := Finite 1\<rparr>), new_quantity \<lparr>new_selectedSize = None, new_quantity = Some q\<rparr>) # s)"
    and "q = Finite (of_int (max 1 (1 - 1)))"
    by fastforce
  then have 2: "decreaseQuantity (\<lambda>i p s. (i, new_quantity p) # s) (photo\<lparr>quantity := Finite 1\<rparr>) []
       = [(''s1-a'', Some (Finite 1))]"
    by (simp add: i)
  from 1 2 show ?thesis by simp
qed

section \<open>An order without stored sessions\<close>

text \<open>
  Claim C10. When the key \<open>orderedSessions\<close> has no value, the handler reads the
  empty array, and the array it stores is the list of distinct session-id
  prefixes of the cart items, in order of first appearance.
\<close>

theorem handlePlaceOrder_no_stored_value:
  assumes "localStorage ''orderedSessions'' = None"
  shows "readOrderedSessions localStorage = []
    \<and> readOrderedSessions (fst (handlePlaceOrder cartItems orderNumber localStorage)) =
        sessionIds cartItems
    \<and> set (readOrderedSessions (fst (handlePlaceOrder cartItems orderNumber localStorage))) =
        (\<lambda>item. takeWhile (\<lambda>c. c \<noteq> CHR ''-'') (id_str item)) ` set cartItems
    \<and> distinct (readOrderedSessions (fst (handlePlaceOrder cartItems orderNumber localStorage)))"
proof -
  have e: "readOrderedSessions localStorage = []"
    using assms by (simp add: readOrderedSessions_def)
  have "new_Set (sessionIds cartItems) = sessionIds cartItems"
    by (simp add: new_Set_distinct sessionIds_def distinct_new_Set)
  then have r: "readOrderedSessions (fst (handlePlaceOrder cartItems orderNumber localStorage)) =
      sessionIds cartItems"
    by (simp add: fst_handlePlaceOrder readOrderedSessions_update e)
  have d: "distinct (sessionIds cartItems)"
    by (simp add: sessionIds_def distinct_new_Set)
  show ?thesis
    unfolding r using e d set_sessionIds [of cartItems] by simp
qed

theorem handlePlaceOrder_no_stored_value_witness:
  "readOrderedSessions (fst (handlePlaceOrder [photo, photo_no_size, photo_negative] (Finite 123456) Map.empty))
     = [''s1'', ''s2'']"
proof -
  have "(Map.empty :: storage) ''orderedSessions'' = None" by simp
  from handlePlaceOrder_no_stored_value [OF this]
  have "readOrderedSessions (fst (handlePlaceOrder [photo, photo_no_size, photo_negative] (Finite 123456) Map.empty))
     = sessionIds [photo, photo_no_size, photo_negative]" by blast
  also have "\<dots> = [''s1'', ''s2'']"
    by (simp add: sessionIds_def new_Set_def Set_add_def split_str_def
        photo_def photo_no_size_def photo_negative_def)
  finally show ?thesis .
qed

end
